theory Spec2Isabelle
  imports Main "HOL-Library.Word"
begin

section \<open>Errors\<close>

text \<open>
  The error values of muxer.go (the \<open>var ( Err... )\<close> block), the anonymous
  \<open>errors.New\<close> of \<open>RegisterTag\<close>, errors handed back by collaborators that are
  not part of muxer.go (\<open>ErrExternal\<close>, carrying their text), and the run-time panic of
  an out-of-range slice access, which is not an error value in Go but ends the call.
\<close>

datatype error =
    ErrAllConnsDown
  | ErrNotRunning
  | ErrNotReady
  | ErrTagNotFound
  | ErrTagMapInvalid
  | ErrEmergencyListOverflow
  | ErrTimeout
  | ErrTagOutOfSync
  | ErrExternal string
  | PanicIndexOutOfRange

section \<open>Tag translator\<close>

text \<open>
  \<open>type tagTrans []entry.EntryTag\<close>. Package \<open>entry\<close> is not among the sources:
  \<open>entry.EntryTag\<close> is taken as an unsigned machine integer of some width \<open>'w\<close>
  (narrower than Go's \<open>int\<close>, so that \<open>int(t)\<close> is \<open>unat t\<close> and
  \<open>entry.EntryTag(i)\<close> is \<open>of_nat i\<close>, which wraps), and the constant
  \<open>entry.GravwellTagId\<close> is the parameter \<open>gw\<close> of the functions that read it.
\<close>

type_synonym 'w tagTrans = "'w word list"

text \<open>
  \<open>Translate\<close>: the Gravwell tag passes through; a tag beyond the translator reads
  \<open>tt[0]\<close>, which panics on an empty slice.
\<close>

definition Translate :: "'w::len word \<Rightarrow> 'w tagTrans \<Rightarrow> 'w word \<Rightarrow> error + ('w word \<times> bool)" where
  "Translate gw tt t =
     (if t = gw then Inr (t, True)
      else if unat t \<ge> length tt then
        (case tt of [] \<Rightarrow> Inl PanicIndexOutOfRange | r # _ \<Rightarrow> Inr (r, False))
      else Inr (tt ! unat t, True))"

text \<open>
  \<open>RegisterTag\<close> has a pointer receiver: the model returns the translator after the
  call together with the error.
\<close>

definition RegisterTag :: "'w::len tagTrans \<Rightarrow> 'w word \<Rightarrow> 'w word \<Rightarrow> 'w tagTrans \<times> error option" where
  "RegisterTag tt local remote =
     (if unat local \<noteq> length tt then (tt, Some ErrTagOutOfSync)
      else (tt @ [remote], None))"

text \<open>The loop \<open>for i := range tt\<close> of \<open>Reverse\<close>, with \<open>i\<close> the current index.\<close>

fun Reverse_scan :: "'w::len tagTrans \<Rightarrow> 'w word \<Rightarrow> nat \<Rightarrow> 'w word" where
  "Reverse_scan [] t i = 0"
| "Reverse_scan (x # xs) t i = (if x = t then of_nat i else Reverse_scan xs t (Suc i))"

definition Reverse :: "'w::len word \<Rightarrow> 'w tagTrans \<Rightarrow> 'w word \<Rightarrow> 'w word" where
  "Reverse gw tt t = (if t = gw then t else Reverse_scan tt t 0)"

section \<open>Emergency queue\<close>

text \<open>
  \<open>emStruct\<close> and the list of \<open>emergencyQueue\<close>; \<open>'e\<close> is the (opaque) entry, a
  nil \<open>*entry.Entry\<close> is \<open>None\<close>, and a nil slice is the empty list, as \<open>len\<close> sees it.
  The fields \<open>e\<close> and \<open>ents\<close> carry the prefix \<open>em_\<close>, to leave both names to
  variables.
\<close>

record 'e emStruct =
  em_e :: "'e option"
  em_ents :: "'e list"

type_synonym 'e emergencyQueue = "'e emStruct list"

definition maxEmergencyListSize :: nat where
  "maxEmergencyListSize = 256"

definition newEmergencyQueue :: "'e emergencyQueue" where
  "newEmergencyQueue = []"

definition push :: "'e emergencyQueue \<Rightarrow> 'e option \<Rightarrow> 'e list \<Rightarrow> 'e emergencyQueue \<times> error option" where
  "push lst e ents =
     (if e = None \<and> length ents = 0 then (lst, None)
      else if length lst > maxEmergencyListSize then (lst, Some ErrEmergencyListOverflow)
      else (lst @ [\<lparr>em_e = e, em_ents = ents\<rparr>], None))"

definition pop :: "'e emergencyQueue \<Rightarrow> 'e emergencyQueue \<times> 'e option \<times> 'e list \<times> bool" where
  "pop lst = (case lst of [] \<Rightarrow> (lst, None, [], False)
              | el # rest \<Rightarrow> (rest, em_e el, em_ents el, True))"

section \<open>The muxer\<close>

datatype muxState = empty | running | closed

definition defaultChannelSize :: int where
  "defaultChannelSize = 64"

record Target =
  Address :: string
  Secret :: string

text \<open>
  \<open>IngestConnection\<close> is a collaborator outside muxer.go. A connection is modelled by
  the calls the muxer has made on it: the names passed to its \<open>NegotiateTag\<close>, the
  number of its \<open>Sync\<close> calls and of its \<open>Close\<close> calls. What a call answers is an
  argument of the muxer function that makes it.
\<close>

record IngestConnection =
  negotiated :: "string list"
  syncs :: nat
  closes :: nat

definition connClose :: "IngestConnection \<Rightarrow> IngestConnection" where
  "connClose v = v\<lparr>closes := Suc (closes v)\<rparr>"

text \<open>
  The fields of \<open>IngestMuxer\<close> that the functions below read or write. \<open>'t\<close> is
  \<open>entry.EntryTag\<close>, \<open>'e\<close> a non-nil \<open>*entry.Entry\<close>; a channel is its buffer,
  oldest element first, and both channels have the capacity \<open>chanSize\<close>
  (\<open>make(chan ..., c.ChannelSize)\<close>); a nil slot of \<open>igst\<close> or \<open>tagTranslators\<close> is
  \<open>None\<close>.
\<close>

record ('t, 'e) IngestMuxer =
  connHot :: "32 word"
  connDead :: "32 word"
  igst :: "IngestConnection option list"
  tagTranslators :: "'t list option list"
  dests :: "Target list"
  tags :: "string list"
  tagMap :: "string \<rightharpoonup> 't"
  eChan :: "'e list"
  bChan :: "'e list list"
  chanSize :: nat
  eq :: "'e emergencyQueue"
  state :: muxState
  cacheEnabled :: bool
  cacheFileBacked :: bool
  cacheRunning :: bool

text \<open>
  The fields of \<open>MuxerConfig\<close> that \<open>newIngestMuxer\<close> uses for the fields above
  (keys, logger and names are copied through and left out), with
  \<open>CacheConfig.FileBackingLocation\<close> as \<open>FileBackingLocation\<close>.
\<close>

record MuxerConfig =
  Destinations :: "Target list"
  Tags :: "string list"
  ChannelSize :: int
  EnableCache :: bool
  FileBackingLocation :: string

text \<open>
  \<open>IngestCache\<close> is a collaborator outside muxer.go; what its calls answer is given by
  this record: the error of \<open>NewIngestCache\<close>, \<open>cache.Count()\<close>,
  \<open>cache.GetTagList()\<close> and \<open>cache.UpdateStoredTagList(tags)\<close>.
\<close>

record cacheEnv =
  NewIngestCache :: "error option"
  Count :: int
  GetTagList :: "error + string list"
  UpdateStoredTagList :: "string list \<Rightarrow> error option"

text \<open>
  The loop \<open>tagLoop\<close> of \<open>newIngestMuxer\<close>: every configured tag that is not yet
  among the cached tags (as grown so far) is appended to them.
\<close>

fun tagLoop :: "string list \<Rightarrow> string list \<Rightarrow> string list" where
  "tagLoop ctags [] = ctags"
| "tagLoop ctags (lt # lts) =
     (if lt \<in> set ctags then tagLoop ctags lts else tagLoop (ctags @ [lt]) lts)"

text \<open>
  The loop \<open>for i, v := range tags { tagMap[v] = entry.EntryTag(i) }\<close>, which both
  \<open>newIngestMuxer\<close> (on a fresh map) and \<open>NegotiateTag\<close> (on \<open>im.tagMap\<close>) run;
  \<open>i\<close> is the index of the head of the list.
\<close>

fun fillTagMap :: "nat \<Rightarrow> string list \<Rightarrow> (string \<rightharpoonup> 'w::len word) \<Rightarrow> (string \<rightharpoonup> 'w word)" where
  "fillTagMap i [] m = m"
| "fillTagMap i (v # vs) m = fillTagMap (Suc i) vs (m(v \<mapsto> of_nat i))"

text \<open>
  The \<open>if c.EnableCache\<close> block of \<open>newIngestMuxer\<close>: the tags the muxer starts
  with, or the error that ends the construction. (The loop \<open>uniqueLoop\<close> only feeds a
  log line.)
\<close>

definition cacheTags :: "cacheEnv \<Rightarrow> string list \<Rightarrow> error + string list" where
  "cacheTags ce localTags =
     (case NewIngestCache ce of
        Some err \<Rightarrow> Inl err
      | None \<Rightarrow>
         (case (if Count ce > 0 then
                  (case GetTagList ce of
                     Inl err \<Rightarrow> Inl err
                   | Inr ctags \<Rightarrow>
                       Inr (if length ctags > 0 then tagLoop ctags localTags else localTags))
                else Inr localTags) of
            Inl err \<Rightarrow> Inl err
          | Inr localTags' \<Rightarrow>
              (case UpdateStoredTagList ce localTags' of
                 Some err \<Rightarrow> Inl err
               | None \<Rightarrow> Inr localTags')))"

definition newIngestMuxer :: "cacheEnv \<Rightarrow> MuxerConfig \<Rightarrow> error + ('w::len word, 'e) IngestMuxer" where
  "newIngestMuxer ce c =
     (case (if EnableCache c then cacheTags ce (Tags c) else Inr (Tags c)) of
        Inl err \<Rightarrow> Inl err
      | Inr localTags \<Rightarrow>
          Inr \<lparr>connHot = 0, connDead = 0, igst = [], tagTranslators = [],
               dests = Destinations c,
               tags = localTags,
               tagMap = fillTagMap 0 localTags Map.empty,
               eChan = [], bChan = [],
               chanSize = nat (if ChannelSize c \<le> 0 then defaultChannelSize else ChannelSize c),
               eq = newEmergencyQueue,
               state = empty,
               cacheEnabled = EnableCache c,
               cacheFileBacked = (FileBackingLocation c \<noteq> []),
               cacheRunning = False\<rparr>)"

definition Start :: "('t, 'e) IngestMuxer \<Rightarrow> ('t, 'e) IngestMuxer \<times> error option" where
  "Start im =
     (if state im \<noteq> empty \<or> length (igst im) \<noteq> 0 then (im, Some ErrNotReady)
      else (im\<lparr>cacheRunning := (if cacheEnabled im then True else cacheRunning im),
               igst := replicate (length (dests im)) None,
               tagTranslators := replicate (length (dests im)) None,
               connDead := of_nat (length (dests im)),
               state := running\<rparr>, None))"

text \<open>
  The loop \<open>for k, v := range im.igst\<close> of \<open>NegotiateTag\<close>, at index \<open>k\<close> with the
  slots still to visit. \<open>neg k name\<close> is what connection \<open>k\<close> answers to
  \<open>NegotiateTag(name)\<close>. Reading \<open>im.tagTranslators[k]\<close> beyond that slice panics.
\<close>

fun negotiateConns ::
  "(nat \<Rightarrow> string \<Rightarrow> error + 'w::len word) \<Rightarrow> string \<Rightarrow> 'w word \<Rightarrow> nat \<Rightarrow>
   IngestConnection option list \<Rightarrow> ('w word, 'e) IngestMuxer \<Rightarrow> error + ('w word, 'e) IngestMuxer" where
  "negotiateConns neg name tg k [] im = Inr im"
| "negotiateConns neg name tg k (None # vs) im = negotiateConns neg name tg (Suc k) vs im"
| "negotiateConns neg name tg k (Some v # vs) im =
     (let v1 = v\<lparr>negotiated := negotiated v @ [name]\<rparr> in
      case neg k name of
        Inl err \<Rightarrow>
          negotiateConns neg name tg (Suc k) vs (im\<lparr>igst := (igst im)[k := Some (connClose v1)]\<rparr>)
      | Inr remoteTag \<Rightarrow>
          if k \<ge> length (tagTranslators im) then Inl PanicIndexOutOfRange
          else
            (case tagTranslators im ! k of
               None \<Rightarrow>
                 negotiateConns neg name tg (Suc k) vs
                   (im\<lparr>igst := (igst im)[k := Some (connClose v1)]\<rparr>)
             | Some tt \<Rightarrow>
                 (case RegisterTag tt tg remoteTag of
                    (tt', None) \<Rightarrow>
                      negotiateConns neg name tg (Suc k) vs
                        (im\<lparr>igst := (igst im)[k := Some v1],
                            tagTranslators := (tagTranslators im)[k := Some tt']\<rparr>)
                  | (tt', Some err) \<Rightarrow>
                      negotiateConns neg name tg (Suc k) vs
                        (im\<lparr>igst := (igst im)[k := Some (connClose v1)],
                            tagTranslators := (tagTranslators im)[k := Some tt']\<rparr>))))"

text \<open>
  \<open>NegotiateTag\<close> returns the muxer after the call, \<open>tg\<close> and \<open>err\<close>; \<open>Inl\<close> is a
  panic. \<open>CheckTag\<close> is not part of muxer.go and is a parameter. The \<open>err\<close> assigned
  inside the connection loop is the loop's own variable, so the call returns nil after it.
\<close>

definition NegotiateTag ::
  "(string \<Rightarrow> error option) \<Rightarrow> cacheEnv \<Rightarrow> (nat \<Rightarrow> string \<Rightarrow> error + 'w::len word) \<Rightarrow>
   ('w word, 'e) IngestMuxer \<Rightarrow> string \<Rightarrow>
   error + (('w word, 'e) IngestMuxer \<times> 'w word \<times> error option)" where
  "NegotiateTag CheckTag ce neg im name =
     (case CheckTag name of
        Some err \<Rightarrow> Inr (im, 0, Some err)
      | None \<Rightarrow>
         (case tagMap im name of
            Some tag \<Rightarrow> Inr (im, tag, None)
          | None \<Rightarrow>
             (let im1 = im\<lparr>tags := tags im @ [name]\<rparr>;
                  im2 = im1\<lparr>tagMap := fillTagMap 0 (tags im1) (tagMap im1)\<rparr>
              in if cacheEnabled im2 \<and> cacheFileBacked im2
                    \<and> UpdateStoredTagList ce (tags im2) \<noteq> None
                 then Inr (im2, 0, UpdateStoredTagList ce (tags im2))
                 else
                   (let tg = (case tagMap im2 name of Some v \<Rightarrow> v | None \<Rightarrow> 0) in
                    case negotiateConns neg name tg 0 (igst im2) im2 of
                      Inl p \<Rightarrow> Inl p
                    | Inr im3 \<Rightarrow> Inr (im3, tg, None)))))"

text \<open>
  The waiting loop of \<open>SyncContext\<close> runs while other goroutines take entries from
  the channels and connections go hot or dead. A \<open>tick\<close> is what one pass of the loop
  body meets: \<open>ctx.Err()\<close> at its start, what the other goroutines have made of
  \<open>connHot\<close>, \<open>connDead\<close> and the two channels by the end of the sleep, and whether
  \<open>time.Since(ts) > to\<close> then. \<open>waitLoop im ticks\<close> is \<open>None\<close> when the ticks end
  while a channel still holds something (the call is still waiting); otherwise it is the
  muxer at the end of the wait with the error the body returns, or with \<open>None\<close> when
  the loop is left because both channels are empty.
\<close>

record 'e tick =
  ctxErr :: "error option"
  hotAfter :: "32 word"
  deadAfter :: "32 word"
  eChanAfter :: "'e list"
  bChanAfter :: "'e list list"
  expired :: bool

fun waitLoop :: "('t, 'e) IngestMuxer \<Rightarrow> 'e tick list \<Rightarrow>
    (('t, 'e) IngestMuxer \<times> error option) option" where
  "waitLoop im [] =
     (if length (eChan im) > 0 \<or> length (bChan im) > 0 then None else Some (im, None))"
| "waitLoop im (t # ts) =
     (if length (eChan im) > 0 \<or> length (bChan im) > 0 then
        (case ctxErr t of
           Some err \<Rightarrow> Some (im, Some err)
         | None \<Rightarrow>
             (let im' = im\<lparr>connHot := hotAfter t, connDead := deadAfter t,
                           eChan := eChanAfter t, bChan := bChanAfter t\<rparr>
              in if connHot im' = 0 then Some (im', Some ErrAllConnsDown)
                 else if expired t then Some (im', Some ErrTimeout)
                 else waitLoop im' ts))
      else Some (im, None))"

text \<open>
  The loop \<open>for _, v := range im.igst\<close> of \<open>SyncContext\<close>: every non-nil connection
  is synced, \<open>sy k\<close> is what the \<open>Sync\<close> of connection \<open>k\<close> returns, and \<open>count\<close>
  is the number of \<open>ErrNotRunning\<close> answers.
\<close>

fun syncConns :: "(nat \<Rightarrow> error option) \<Rightarrow> nat \<Rightarrow> IngestConnection option list \<Rightarrow>
    IngestConnection option list \<times> nat" where
  "syncConns sy k [] = ([], 0)"
| "syncConns sy k (None # vs) = (case syncConns sy (Suc k) vs of (vs', count) \<Rightarrow> (None # vs', count))"
| "syncConns sy k (Some v # vs) =
     (case syncConns sy (Suc k) vs of (vs', count) \<Rightarrow>
        (Some (v\<lparr>syncs := Suc (syncs v)\<rparr>) # vs',
         (if sy k = Some ErrNotRunning then Suc count else count)))"

text \<open>
  \<open>SyncContext\<close> is \<open>None\<close> when the call has not returned within the ticks; the
  muxer it returns is the one at the end of the wait, with every live connection synced.
\<close>

definition SyncContext :: "(nat \<Rightarrow> error option) \<Rightarrow> 'e tick list \<Rightarrow> ('t, 'e) IngestMuxer \<Rightarrow>
    (('t, 'e) IngestMuxer \<times> error option) option" where
  "SyncContext sy ticks im =
     (if connHot im = 0 \<and> \<not> cacheRunning im then Some (im, Some ErrAllConnsDown)
      else
        (case waitLoop im ticks of
           None \<Rightarrow> None
         | Some (im1, Some err) \<Rightarrow> Some (im1, Some err)
         | Some (im1, None) \<Rightarrow>
             (case syncConns sy 0 (igst im1) of (vs, count) \<Rightarrow>
                Some (im1\<lparr>igst := vs\<rparr>,
                      if count = length (igst im1) then Some ErrAllConnsDown else None))))"


text \<open>
  \<open>WriteEntry\<close> and \<open>WriteBatch\<close>: the send on a channel whose buffer is full does not
  complete until a receiver takes an element; the call is then \<open>None\<close> (it has not
  returned in this state of the muxer).
\<close>

definition WriteEntry :: "('t, 'e) IngestMuxer \<Rightarrow> 'e option \<Rightarrow>
    (('t, 'e) IngestMuxer \<times> error option) option" where
  "WriteEntry im e =
     (case e of
        None \<Rightarrow> Some (im, None)
      | Some x \<Rightarrow>
          if state im \<noteq> running then Some (im, Some ErrNotRunning)
          else if length (eChan im) < chanSize im then Some (im\<lparr>eChan := eChan im @ [x]\<rparr>, None)
          else None)"

definition WriteBatch :: "('t, 'e) IngestMuxer \<Rightarrow> 'e list \<Rightarrow>
    (('t, 'e) IngestMuxer \<times> error option) option" where
  "WriteBatch im b =
     (if length b = 0 then Some (im, None)
      else if state im \<noteq> running then Some (im, Some ErrNotRunning)
      else if length (bChan im) < chanSize im then Some (im\<lparr>bChan := bChan im @ [b]\<rparr>, None)
      else None)"

text \<open>
  \<open>newTagTrans\<close>. Go visits the entries of \<open>im.tagMap\<close> in an order of its own:
  \<open>ks\<close> is the list of the map's keys in the order of this visit, so
  \<open>len(im.tagMap)\<close> is \<open>length ks\<close>. \<open>getTag\<close> is the \<open>GetTag\<close> of the
  connection. The guard lets \<open>int(v) = len(tt)\<close> through, and the store \<open>tt[v] = tg\<close>
  then panics.
\<close>

fun newTagTrans_loop :: "(string \<rightharpoonup> 'w::len word) \<Rightarrow> (string \<Rightarrow> 'w word option) \<Rightarrow> string list \<Rightarrow>
    'w tagTrans \<Rightarrow> error + 'w tagTrans" where
  "newTagTrans_loop m getTag [] tt = Inr tt"
| "newTagTrans_loop m getTag (k # ks) tt =
     (case m k of
        None \<Rightarrow> newTagTrans_loop m getTag ks tt
      | Some v \<Rightarrow>
          if unat v > length tt then Inl ErrTagMapInvalid
          else
            (case getTag k of
               None \<Rightarrow> Inl ErrTagNotFound
             | Some tg \<Rightarrow>
                 if unat v < length tt then newTagTrans_loop m getTag ks (tt[unat v := tg])
                 else Inl PanicIndexOutOfRange))"

definition newTagTrans :: "('w::len word, 'e) IngestMuxer \<Rightarrow> string list \<Rightarrow> (string \<Rightarrow> 'w word option) \<Rightarrow>
    error + 'w tagTrans" where
  "newTagTrans im ks getTag =
     (let tt = replicate (length ks) 0 in
      if length tt = 0 then Inl ErrTagMapInvalid
      else newTagTrans_loop (tagMap im) getTag ks tt)"

text \<open>
  The muxer states that the functions above produce: a muxer as \<open>newIngestMuxer\<close>
  returns it, and from there any call of \<open>Start\<close>, \<open>NegotiateTag\<close>, \<open>WriteEntry\<close>,
  \<open>WriteBatch\<close> and \<open>SyncContext\<close> that returns.
\<close>

inductive reachable :: "('w::len word, 'e) IngestMuxer \<Rightarrow> bool" where
  r_new: "newIngestMuxer ce c = Inr im \<Longrightarrow> reachable im"
| r_Start: "reachable im \<Longrightarrow> Start im = (im', err) \<Longrightarrow> reachable im'"
| r_NegotiateTag:
    "reachable im \<Longrightarrow> NegotiateTag CheckTag ce neg im name = Inr (im', tg, err) \<Longrightarrow> reachable im'"
| r_WriteEntry: "reachable im \<Longrightarrow> WriteEntry im e = Some (im', err) \<Longrightarrow> reachable im'"
| r_WriteBatch: "reachable im \<Longrightarrow> WriteBatch im b = Some (im', err) \<Longrightarrow> reachable im'"
| r_SyncContext: "reachable im \<Longrightarrow> SyncContext sy ticks im = Some (im', err) \<Longrightarrow> reachable im'"

text \<open>
  One step of a muxer: what any of the calls above does to it. The tag table of the
  claims is the pair of \<open>tags\<close> and \<open>tagMap\<close>.
\<close>

inductive step :: "('w::len word, 'e) IngestMuxer \<Rightarrow> ('w word, 'e) IngestMuxer \<Rightarrow> bool" where
  s_Start: "Start im = (im', err) \<Longrightarrow> step im im'"
| s_NegotiateTag: "NegotiateTag CheckTag ce neg im name = Inr (im', tg, err) \<Longrightarrow> step im im'"
| s_WriteEntry: "WriteEntry im e = Some (im', err) \<Longrightarrow> step im im'"
| s_WriteBatch: "WriteBatch im b = Some (im', err) \<Longrightarrow> step im im'"
| s_SyncContext: "SyncContext sy ticks im = Some (im', err) \<Longrightarrow> step im im'"


section \<open>Example values\<close>

text \<open>
  Concrete values at which the theorems below are exercised: tags of 16 bits with
  \<open>0xFFFF\<close> as the Gravwell tag, entries numbered by naturals. \<open>exMuxer\<close> is a running
  muxer for two destinations, the first with a live connection and the translator
  \<open>[3, 4]\<close>, with a file-backed cache that is not running; \<open>exHotMuxer\<close> is the
  same muxer with both connections live and one entry waiting in \<open>eChan\<close>, and
  \<open>exTick\<close> a pass of the waiting loop during which that entry is taken; \<open>exNew\<close> is
  the muxer that \<open>newIngestMuxer\<close> builds from \<open>exConfig\<close>.
\<close>

definition exCache :: cacheEnv where
  "exCache = \<lparr>NewIngestCache = None, Count = 0, GetTagList = Inr [],
              UpdateStoredTagList = (\<lambda>_. None)\<rparr>"

definition exFailingCache :: cacheEnv where
  "exFailingCache = \<lparr>NewIngestCache = None, Count = 0, GetTagList = Inr [],
              UpdateStoredTagList = (\<lambda>_. Some (ErrExternal ''write failed''))\<rparr>"

definition exConfig :: MuxerConfig where
  "exConfig = \<lparr>Destinations = [\<lparr>Address = ''10.0.0.1:4023'', Secret = ''s''\<rparr>,
                               \<lparr>Address = ''10.0.0.2:4023'', Secret = ''s''\<rparr>],
               Tags = [''default'', ''syslog''], ChannelSize = 0, EnableCache = False,
               FileBackingLocation = []\<rparr>"

definition exDupConfig :: MuxerConfig where
  "exDupConfig = exConfig\<lparr>Tags := [''a'', ''a'']\<rparr>"

definition exMuxer :: "(16 word, nat) IngestMuxer" where
  "exMuxer = \<lparr>connHot = 1, connDead = 1,
              igst = [Some \<lparr>negotiated = [], syncs = 0, closes = 0\<rparr>, None],
              tagTranslators = [Some [3, 4], None],
              dests = Destinations exConfig,
              tags = [''default'', ''syslog''],
              tagMap = [''default'' \<mapsto> 0, ''syslog'' \<mapsto> 1],
              eChan = [], bChan = [], chanSize = 64, eq = [],
              state = running,
              cacheEnabled = True, cacheFileBacked = True, cacheRunning = False\<rparr>"

definition exNegotiate :: "nat \<Rightarrow> string \<Rightarrow> error + 16 word" where
  "exNegotiate k name = Inr 5"

definition exCheckTag :: "string \<Rightarrow> error option" where
  "exCheckTag name = (if name = [] then Some (ErrExternal ''empty tag'') else None)"




definition exNew :: "(16 word, nat) IngestMuxer" where
  "exNew = (case newIngestMuxer exCache exConfig of Inr im \<Rightarrow> im | Inl err \<Rightarrow> exMuxer)"


section \<open>The emergency queue's bound\<close>

lemma push_empty_payload: "push lst None [] = (lst, None)"
  by (simp add: push_def)

lemma push_bound: "length lst \<le> 257 \<Longrightarrow> length (fst (push lst e ents)) \<le> 257"
  by (simp add: push_def maxEmergencyListSize_def)

lemma push_overflow_iff:
  "e \<noteq> None \<or> ents \<noteq> [] \<Longrightarrow>
     snd (push lst e ents) = Some ErrEmergencyListOverflow \<longleftrightarrow> 257 \<le> length lst"
  by (auto simp: push_def maxEmergencyListSize_def)

text \<open>
  C1. The claim: the queue never holds more than 256 items, \<open>push\<close> of a non-empty
  payload returning the overflow error exactly when 256 items are held. The code compares
  with \<open>>\<close>, so a queue of 256 items accepts one more: the push below succeeds and
  leaves 257 items.
\<close>

theorem push_at_256_accepts:
  "push (replicate 256 \<lparr>em_e = Some (0::nat), em_ents = []\<rparr>) (Some 1) []
     = (replicate 256 \<lparr>em_e = Some 0, em_ents = []\<rparr> @ [\<lparr>em_e = Some 1, em_ents = []\<rparr>], None)
   \<and> length (fst (push (replicate 256 \<lparr>em_e = Some (0::nat), em_ents = []\<rparr>) (Some 1) [])) = 257"
  by (simp add: push_def maxEmergencyListSize_def)


section \<open>The tag translator\<close>

lemma unat_of_nat_small: "i < 2 ^ LENGTH('w) \<Longrightarrow> unat (of_nat i :: 'w::len word) = i"
  by (rule of_nat_inverse [OF refl])

lemma Reverse_scan_notin: "t \<notin> set tt \<Longrightarrow> Reverse_scan tt t i = 0"
  by (induction tt arbitrary: i) auto

lemma Reverse_scan_first:
  "j < length tt \<Longrightarrow> tt ! j = t \<Longrightarrow> (\<forall>k<j. tt ! k \<noteq> t) \<Longrightarrow> Reverse_scan tt t i = of_nat (i + j)"
proof (induction tt arbitrary: i j)
  case Nil
  then show ?case by simp
next
  case (Cons x xs)
  show ?case
  proof (cases j)
    case 0
    with Cons.prems show ?thesis by simp
  next
    case (Suc j')
    with Cons.prems have "x \<noteq> t" by auto
    moreover have "Reverse_scan xs t (Suc i) = of_nat (Suc i + j')"
      using Cons.prems Suc by (intro Cons.IH) auto
    ultimately show ?thesis using Suc by simp
  qed
qed

lemma first_occurrence:
  "t \<in> set tt \<Longrightarrow> \<exists>j<length tt. tt ! j = t \<and> (\<forall>k<j. tt ! k \<noteq> t)"
proof -
  assume "t \<in> set tt"
  then obtain n where n: "n < length tt" "tt ! n = t" by (auto simp: in_set_conv_nth)
  define j where "j = (LEAST n. n < length tt \<and> tt ! n = t)"
  have 1: "j < length tt \<and> tt ! j = t"
    unfolding j_def using n by (intro LeastI [of "\<lambda>n. n < length tt \<and> tt ! n = t"]) simp
  have 2: "\<forall>k<j. tt ! k \<noteq> t"
  proof (intro allI impI notI)
    fix k assume "k < j" "tt ! k = t"
    then have "k < length tt \<and> tt ! k = t" using 1 by simp
    then have "j \<le> k" unfolding j_def by (rule Least_le)
    with \<open>k < j\<close> show False by simp
  qed
  from 1 2 show ?thesis by blast
qed

text \<open>
  C9. \<open>Reverse\<close> returns the remote tag unchanged when it is the Gravwell tag; otherwise
  the smallest index \<open>i\<close> with \<open>tt[i] = r\<close> when \<open>r\<close> occurs in the translator, and 0
  when it does not. The index is returned as \<open>entry.EntryTag(i)\<close>, which is \<open>i\<close>
  itself whenever \<open>i\<close> fits the tag type.
\<close>

theorem Reverse_spec:
  fixes gw :: "'w::len word"
  shows "(r = gw \<longrightarrow> Reverse gw tt r = r)
   \<and> (r \<noteq> gw \<and> r \<in> set tt \<longrightarrow>
        (\<exists>i<length tt. tt ! i = r \<and> (\<forall>j<i. tt ! j \<noteq> r) \<and> Reverse gw tt r = of_nat i
            \<and> (i < 2 ^ LENGTH('w) \<longrightarrow> unat (Reverse gw tt r) = i)))
   \<and> (r \<noteq> gw \<and> r \<notin> set tt \<longrightarrow> Reverse gw tt r = 0)"
proof (intro conjI impI)
  assume "r = gw" then show "Reverse gw tt r = r" by (simp add: Reverse_def)
next
  assume a: "r \<noteq> gw \<and> r \<in> set tt"
  then have "r \<in> set tt" by simp
  from first_occurrence [OF this]
  obtain i where "i < length tt \<and> (tt ! i = r \<and> (\<forall>j<i. tt ! j \<noteq> r))" ..
  then have i: "i < length tt" "tt ! i = r" "\<forall>j<i. tt ! j \<noteq> r" by simp_all
  from i have "Reverse_scan tt r 0 = of_nat (0 + i)" by (rule Reverse_scan_first)
  then have e: "Reverse gw tt r = of_nat i" using a by (simp add: Reverse_def)
  have u: "i < 2 ^ LENGTH('w) \<longrightarrow> unat (Reverse gw tt r) = i"
    unfolding e by (rule impI) (rule unat_of_nat_small)
  show "\<exists>i<length tt. tt ! i = r \<and> (\<forall>j<i. tt ! j \<noteq> r) \<and> Reverse gw tt r = of_nat i
            \<and> (i < 2 ^ LENGTH('w) \<longrightarrow> unat (Reverse gw tt r) = i)"
    by (rule exI [of _ i]) (intro conjI i e u)
next
  assume "r \<noteq> gw \<and> r \<notin> set tt"
  then show "Reverse gw tt r = 0" by (simp add: Reverse_def Reverse_scan_notin)
qed

text \<open>C9 at the three cases: the Gravwell tag, a tag that occurs twice, a tag that is absent.\<close>

theorem Reverse_spec_witness:
  "Reverse (0xFFFF::16 word) [7, 9, 7] 0xFFFF = 0xFFFF
   \<and> Reverse (0xFFFF::16 word) [7, 9, 9] 9 = 1
   \<and> Reverse (0xFFFF::16 word) [7, 9, 7] 8 = 0"
proof -
  from Reverse_spec [where r = "0xFFFF::16 word" and gw = "0xFFFF" and tt = "[7, 9, 7]"]
  have c1: "Reverse (0xFFFF::16 word) [7, 9, 7] 0xFFFF = 0xFFFF" by simp
  from Reverse_spec [where r = 9 and gw = "0xFFFF::16 word" and tt = "[7, 9, 9]"]
  obtain i where i: "i < length [7, 9, 9::16 word]" "[7, 9, 9::16 word] ! i = 9"
      "\<forall>j<i. [7, 9, 9::16 word] ! j \<noteq> 9"
    and r: "Reverse (0xFFFF::16 word) [7, 9, 9] 9 = of_nat i"
    by auto
  have "i \<noteq> 0" using i(2) by (rule contrapos_pn) simp
  moreover have "i \<noteq> 2"
  proof
    assume "i = 2"
    then have "1 < i" by simp
    with i(3) have "[7, 9, 9::16 word] ! 1 \<noteq> 9" by blast
    then show False by simp
  qed
  ultimately have "i = 1" using i(1) by simp
  with r have c2: "Reverse (0xFFFF::16 word) [7, 9, 9] 9 = 1" by simp
  from Reverse_spec [where r = 8 and gw = "0xFFFF::16 word" and tt = "[7, 9, 7]"]
  have c3: "Reverse (0xFFFF::16 word) [7, 9, 7] 8 = 0" by simp
  from c1 c2 c3 show ?thesis by (intro conjI)
qed

text \<open>
  C3. \<open>Translate\<close> returns \<open>(t, true)\<close> for the Gravwell tag; for any other tag it
  returns \<open>(tt[t], true)\<close> if \<open>t < len(tt)\<close>, and \<open>(tt[0], false)\<close> if
  \<open>t \<ge> len(tt)\<close>, the translator being one the muxer works with: \<open>newTagTrans\<close>
  returns none that is empty and \<open>RegisterTag\<close> only appends. (The last conjunct
  records what the read of \<open>tt[0]\<close> does on the empty slice, which is no translator:
  it panics.)
\<close>

theorem Translate_cases:
  "(t = gw \<longrightarrow> Translate gw tt t = Inr (t, True))
   \<and> (t \<noteq> gw \<and> unat t < length tt \<longrightarrow> Translate gw tt t = Inr (tt ! unat t, True))
   \<and> (t \<noteq> gw \<and> unat t \<ge> length tt \<and> tt \<noteq> [] \<longrightarrow> Translate gw tt t = Inr (tt ! 0, False))
   \<and> (t \<noteq> gw \<and> tt = [] \<longrightarrow> Translate gw tt t = Inl PanicIndexOutOfRange)"
  by (cases tt) (auto simp: Translate_def)

text \<open>C3 at each of its cases.\<close>

theorem Translate_cases_witness:
  "Translate (0xFFFF::16 word) [7, 9] 0xFFFF = Inr (0xFFFF, True)
   \<and> Translate (0xFFFF::16 word) [7, 9] 1 = Inr (9, True)
   \<and> Translate (0xFFFF::16 word) [7, 9] 2 = Inr (7, False)
   \<and> Translate (0xFFFF::16 word) [] 2 = Inl PanicIndexOutOfRange"
  using Translate_cases [where t = "0xFFFF::16 word" and gw = "0xFFFF" and tt = "[7, 9]"]
        Translate_cases [where t = 1 and gw = "0xFFFF::16 word" and tt = "[7, 9]"]
        Translate_cases [where t = 2 and gw = "0xFFFF::16 word" and tt = "[7, 9]"]
        Translate_cases [where t = 2 and gw = "0xFFFF::16 word" and tt = "[]"]
  by simp

text \<open>
  C5. \<open>RegisterTag(local, remote)\<close> succeeds exactly when \<open>local = len(tt)\<close> before
  the call, and then appends \<open>remote\<close> (the length grows by one, the last element is
  \<open>remote\<close>); otherwise it returns the out-of-sync error and leaves the translator as it
  was.
\<close>

theorem RegisterTag_spec:
  "(unat local = length tt \<longrightarrow>
      RegisterTag tt local remote = (tt @ [remote], None)
      \<and> length (fst (RegisterTag tt local remote)) = length tt + 1
      \<and> last (fst (RegisterTag tt local remote)) = remote)
   \<and> (unat local \<noteq> length tt \<longrightarrow> RegisterTag tt local remote = (tt, Some ErrTagOutOfSync))
   \<and> (snd (RegisterTag tt local remote) = None \<longleftrightarrow> unat local = length tt)"
  by (simp add: RegisterTag_def)

text \<open>C5 at a tag that is the next index and at one that is not.\<close>

theorem RegisterTag_spec_witness:
  "RegisterTag [7, 9] (2::16 word) 11 = ([7, 9, 11], None)
   \<and> RegisterTag [7, 9] (3::16 word) 11 = ([7, 9], Some ErrTagOutOfSync)"
  using RegisterTag_spec [where local = 2 and tt = "[7, 9::16 word]" and remote = 11]
        RegisterTag_spec [where local = 3 and tt = "[7, 9::16 word]" and remote = 11]
  by simp

lemma Translate_in_range:
  "unat t < length tt \<Longrightarrow> Translate gw tt t = Inr (if t = gw then t else tt ! unat t, True)"
  by (simp add: Translate_def)

text \<open>
  For a local tag \<open>t\<close> with \<open>t < len(tt)\<close>, in any slice of remote tags,
  \<open>Translate\<close> succeeds, and reversing its result gives \<open>t\<close> back exactly when \<open>t\<close>
  is the Gravwell tag, or \<open>tt[t]\<close> is not the Gravwell tag and does not occur before
  position \<open>t\<close>.
\<close>

lemma Reverse_Translate_iff:
  fixes gw :: "'w::len word"
  assumes "unat t < length tt"
  shows "\<exists>r. Translate gw tt t = Inr (r, True)
     \<and> (Reverse gw tt r = t
          \<longleftrightarrow> t = gw \<or> (tt ! unat t \<noteq> gw \<and> (\<forall>j<unat t. tt ! j \<noteq> tt ! unat t)))"
proof (cases "t = gw")
  case True
  then show ?thesis using assms by (simp add: Translate_in_range Reverse_def)
next
  case False
  let ?r = "tt ! unat t"
  have tr: "Translate gw tt t = Inr (?r, True)"
    using assms False by (simp add: Translate_in_range)
  have "Reverse gw tt ?r = t \<longleftrightarrow> ?r \<noteq> gw \<and> (\<forall>j<unat t. tt ! j \<noteq> ?r)"
  proof (cases "?r = gw")
    case True
    then show ?thesis using False by (simp add: Reverse_def)
  next
    case rgw: False
    have "?r \<in> set tt" using assms by simp
    from first_occurrence [OF this]
    obtain i where "i < length tt \<and> (tt ! i = ?r \<and> (\<forall>j<i. tt ! j \<noteq> ?r))" ..
    then have i: "i < length tt" "tt ! i = ?r" "\<forall>j<i. tt ! j \<noteq> ?r" by simp_all
    from i have "Reverse_scan tt ?r 0 = of_nat (0 + i)" by (rule Reverse_scan_first)
    then have e: "Reverse gw tt ?r = of_nat i" using rgw by (simp add: Reverse_def)
    have ile: "i \<le> unat t"
    proof (rule ccontr)
      assume "\<not> i \<le> unat t"
      then have "unat t < i" by simp
      with i(3) show False by blast
    qed
    have "unat t < 2 ^ LENGTH('w)" by (rule unsigned_less)
    with ile have "i < 2 ^ LENGTH('w)" by (rule le_less_trans)
    then have ui: "unat (of_nat i :: 'w word) = i" by (rule unat_of_nat_small)
    show ?thesis
    proof
      assume "Reverse gw tt ?r = t"
      then have "unat t = i" using e ui by simp
      with i(3) rgw show "?r \<noteq> gw \<and> (\<forall>j<unat t. tt ! j \<noteq> ?r)" by simp
    next
      assume h: "?r \<noteq> gw \<and> (\<forall>j<unat t. tt ! j \<noteq> ?r)"
      have "\<not> i < unat t" using h i(2) by blast
      with ile have "i = unat t" by simp
      then show "Reverse gw tt ?r = t" using e by simp
    qed
  qed
  with tr False show ?thesis by simp
qed

text \<open>
  C2. A translator is a bijection between the local tags and the remote tags of one
  connection: no remote tag occurs twice in it, and the reserved Gravwell tag, which is
  passed through untranslated, is not among its remote tags. For every translator \<open>tt\<close>
  and every local tag \<open>t\<close> with an entry at position \<open>t\<close> (\<open>t < len(tt)\<close>),
  \<open>Translate\<close> succeeds and reversing the translated tag gives \<open>t\<close> back.
\<close>

theorem Reverse_Translate:
  fixes gw :: "'w::len word"
  assumes "distinct tt" and "gw \<notin> set tt" and "unat t < length tt"
  shows "\<exists>r. Translate gw tt t = Inr (r, True) \<and> Reverse gw tt r = t"
proof -
  from Reverse_Translate_iff [OF assms(3), of gw]
  obtain r where r: "Translate gw tt t = Inr (r, True)
     \<and> (Reverse gw tt r = t
          \<longleftrightarrow> t = gw \<or> (tt ! unat t \<noteq> gw \<and> (\<forall>j<unat t. tt ! j \<noteq> tt ! unat t)))" ..
  have "tt ! unat t \<in> set tt" using assms(3) by simp
  with assms(2) have a: "tt ! unat t \<noteq> gw" by auto
  have b: "\<forall>j<unat t. tt ! j \<noteq> tt ! unat t"
  proof (intro allI impI)
    fix j assume j: "j < unat t"
    with assms(3) have "j < length tt" by simp
    with assms(1) assms(3) have "tt ! j = tt ! unat t \<longleftrightarrow> j = unat t"
      by (simp add: nth_eq_iff_index_eq)
    with j show "tt ! j \<noteq> tt ! unat t" by simp
  qed
  from r a b have "Translate gw tt t = Inr (r, True) \<and> Reverse gw tt r = t" by simp
  then show ?thesis ..
qed

text \<open>C2 at the translator \<open>[7, 9]\<close> and the local tag 1.\<close>

theorem Reverse_Translate_witness:
  "distinct [7, 9::16 word] \<and> (0xFFFF::16 word) \<notin> set [7, 9]
   \<and> unat (1::16 word) < length [7, 9::16 word]
   \<and> Translate 0xFFFF [7, 9] (1::16 word) = Inr (9, True)
   \<and> Reverse 0xFFFF [7, 9] (9::16 word) = 1"
proof -
  have h1: "distinct [7, 9::16 word]" by simp
  have h2: "(0xFFFF::16 word) \<notin> set [7, 9]" by simp
  have h3: "unat (1::16 word) < length [7, 9::16 word]" by simp
  have t: "Translate 0xFFFF [7, 9] (1::16 word) = Inr (9, True)" by (simp add: Translate_in_range)
  from Reverse_Translate [OF h1 h2 h3] t have "Reverse 0xFFFF [7, 9] (9::16 word) = 1" by auto
  with h1 h2 h3 t show ?thesis by (intro conjI)
qed

lemma newTagTrans_loop_length:
  "newTagTrans_loop m getTag ks tt = Inr tt' \<Longrightarrow> length tt' = length tt"
proof (induction ks arbitrary: tt)
  case Nil
  then show ?case by simp
next
  case (Cons k ks)
  then show ?case
    by (auto split: option.splits if_splits)
qed

lemma Translate_total: "tt \<noteq> [] \<Longrightarrow> \<exists>r ok. Translate gw tt t = Inr (r, ok)"
  by (cases tt) (auto simp: Translate_def)

lemma newTagTrans_loop_returns:
  "(\<forall>k\<in>set ks. getTag k \<noteq> None \<and> (\<forall>v. m k = Some v \<longrightarrow> unat v < length tt)) \<Longrightarrow>
     \<exists>tt'. newTagTrans_loop m getTag ks tt = Inr tt'"
proof (induction ks arbitrary: tt)
  case Nil
  then show ?case by simp
next
  case (Cons k ks)
  have rest: "\<exists>tt'. newTagTrans_loop m getTag ks tt1 = Inr tt'" if "length tt1 = length tt" for tt1
  proof (rule Cons.IH)
    show "\<forall>k\<in>set ks. getTag k \<noteq> None \<and> (\<forall>v. m k = Some v \<longrightarrow> unat v < length tt1)"
      using Cons.prems that by simp
  qed
  from Cons.prems obtain tg where g: "getTag k = Some tg" by auto
  show ?case
  proof (cases "m k")
    case None
    then show ?thesis using rest [of tt] by simp
  next
    case (Some v)
    with Cons.prems have "unat v < length tt" by simp
    then show ?thesis using Some g rest [of "tt[unat v := tg]"] by simp
  qed
qed

text \<open>
  C10. \<open>newTagTrans\<close> returns \<open>ErrTagMapInvalid\<close> when the tag map is empty. When
  it is not, and the connection knows every name and every id of the map is below
  \<open>len(im.tagMap)\<close>, it returns a translator; and a translator that it returns has the
  length \<open>len(im.tagMap)\<close>, which is at least 1, so that \<open>Translate\<close> on it never
  panics: the read of \<open>tt[0]\<close> is in bounds. \<open>ks\<close> is the order in which the keys of
  the tag map are visited.
\<close>

theorem newTagTrans_nonempty:
  assumes "distinct ks" and "set ks = dom (tagMap im)"
  shows "(tagMap im = Map.empty \<longrightarrow> newTagTrans im ks getTag = Inl ErrTagMapInvalid)
    \<and> (tagMap im \<noteq> Map.empty
        \<and> (\<forall>k\<in>dom (tagMap im). getTag k \<noteq> None
              \<and> (\<forall>v. tagMap im k = Some v \<longrightarrow> unat v < card (dom (tagMap im)))) \<longrightarrow>
          (\<exists>tt. newTagTrans im ks getTag = Inr tt))
    \<and> (\<forall>tt. newTagTrans im ks getTag = Inr tt \<longrightarrow>
          length tt = card (dom (tagMap im)) \<and> 1 \<le> length tt
          \<and> (\<forall>t. \<exists>r ok. Translate gw tt t = Inr (r, ok)))"
proof (intro conjI allI impI)
  assume "tagMap im = Map.empty"
  with assms(2) have "ks = []" by simp
  then show "newTagTrans im ks getTag = Inl ErrTagMapInvalid" by (simp add: newTagTrans_def)
next
  have card: "card (dom (tagMap im)) = length ks"
    using assms distinct_card [of ks] by simp
  assume a: "tagMap im \<noteq> Map.empty
        \<and> (\<forall>k\<in>dom (tagMap im). getTag k \<noteq> None
              \<and> (\<forall>v. tagMap im k = Some v \<longrightarrow> unat v < card (dom (tagMap im))))"
  then have "dom (tagMap im) \<noteq> {}" by simp
  with assms(2) have "set ks \<noteq> {}" by simp
  then have ne: "ks \<noteq> []" by auto
  have "\<forall>k\<in>set ks. getTag k \<noteq> None
      \<and> (\<forall>v. tagMap im k = Some v \<longrightarrow> unat v < length (replicate (length ks) (0::'a word)))"
    using a assms(2) card by simp
  from newTagTrans_loop_returns [OF this]
  show "\<exists>tt. newTagTrans im ks getTag = Inr tt" using ne by (simp add: newTagTrans_def)
next
  fix tt assume ok: "newTagTrans im ks getTag = Inr tt"
  then have ne: "ks \<noteq> []" by (auto simp: newTagTrans_def)
  with ok have "newTagTrans_loop (tagMap im) getTag ks (replicate (length ks) 0) = Inr tt"
    by (simp add: newTagTrans_def)
  then have len: "length tt = length ks" by (simp add: newTagTrans_loop_length)
  have "card (dom (tagMap im)) = length ks"
    using assms distinct_card [of ks] by simp
  with len show "length tt = card (dom (tagMap im))" by simp
  from len ne show "1 \<le> length tt" by (cases ks) simp_all
  then have "tt \<noteq> []" by auto
  then show "\<exists>r ok. Translate gw tt t = Inr (r, ok)" for t by (rule Translate_total)
qed

text \<open>
  C10 at the example muxer, whose tag map has two names: the translator built for it has
  two entries, and a tag beyond it is translated without a panic.
\<close>

theorem newTagTrans_nonempty_witness:
  "distinct [''syslog'', ''default'']
   \<and> set [''syslog'', ''default''] = dom (tagMap exMuxer)
   \<and> newTagTrans exMuxer [''syslog'', ''default''] [''default'' \<mapsto> 3, ''syslog'' \<mapsto> 4] = Inr [3, 4]
   \<and> length [3, 4::16 word] = card (dom (tagMap exMuxer))
   \<and> (\<exists>r ok. Translate 0xFFFF [3, 4] (7::16 word) = Inr (r, ok))"
proof -
  let ?ks = "[''syslog'', ''default'']"
  let ?g = "[''default'' \<mapsto> 3, ''syslog'' \<mapsto> 4::16 word]"
  have h1: "distinct ?ks" by simp
  have h2: "set ?ks = dom (tagMap exMuxer)" by (simp add: exMuxer_def insert_commute)
  have r: "newTagTrans exMuxer ?ks ?g = Inr [3, 4]" by (simp add: exMuxer_def newTagTrans_def)
  from newTagTrans_nonempty [OF h1 h2, of ?g "0xFFFF"] r
  have "length [3, 4::16 word] = card (dom (tagMap exMuxer))
        \<and> (\<exists>r ok. Translate 0xFFFF [3, 4] (7::16 word) = Inr (r, ok))"
    by blast
  with h1 h2 r show ?thesis by blast
qed

section \<open>Writing to the channels\<close>

text \<open>
  C6. \<open>WriteEntry\<close> with a nil entry and \<open>WriteBatch\<close> with an empty batch return
  nil and leave the muxer as it is, in every state. With a non-nil entry (a non-empty
  batch): if the state is not \<open>running\<close> the call returns \<open>ErrNotRunning\<close> and the
  muxer is unchanged; if it is \<open>running\<close>, the call returns as soon as the channel has
  room, every return is nil, and the entry (the batch) is then the last element of
  \<open>eChan\<close> (\<open>bChan\<close>).
\<close>

theorem Write_spec:
  "WriteEntry im None = Some (im, None)
   \<and> WriteBatch im [] = Some (im, None)
   \<and> (state im \<noteq> running \<longrightarrow> WriteEntry im (Some x) = Some (im, Some ErrNotRunning))
   \<and> (state im \<noteq> running \<and> b \<noteq> [] \<longrightarrow> WriteBatch im b = Some (im, Some ErrNotRunning))
   \<and> (state im = running \<and> length (eChan im) < chanSize im \<longrightarrow>
         WriteEntry im (Some x) = Some (im\<lparr>eChan := eChan im @ [x]\<rparr>, None))
   \<and> (state im = running \<and> b \<noteq> [] \<and> length (bChan im) < chanSize im \<longrightarrow>
         WriteBatch im b = Some (im\<lparr>bChan := bChan im @ [b]\<rparr>, None))
   \<and> (state im = running \<longrightarrow>
         (\<forall>im' err. WriteEntry im (Some x) = Some (im', err) \<longrightarrow>
            err = None \<and> im' = im\<lparr>eChan := eChan im @ [x]\<rparr>))
   \<and> (state im = running \<and> b \<noteq> [] \<longrightarrow>
         (\<forall>im' err. WriteBatch im b = Some (im', err) \<longrightarrow>
            err = None \<and> im' = im\<lparr>bChan := bChan im @ [b]\<rparr>))"
  by (auto simp: WriteEntry_def WriteBatch_def split: if_splits)

text \<open>C6 at a closed muxer, an unstarted one, and the running example muxer.\<close>

theorem Write_spec_witness:
  "WriteEntry (exMuxer\<lparr>state := closed\<rparr>) (Some 7) = Some (exMuxer\<lparr>state := closed\<rparr>, Some ErrNotRunning)
   \<and> WriteBatch (exMuxer\<lparr>state := empty\<rparr>) [7, 8] = Some (exMuxer\<lparr>state := empty\<rparr>, Some ErrNotRunning)
   \<and> WriteEntry exMuxer (Some 7) = Some (exMuxer\<lparr>eChan := eChan exMuxer @ [7]\<rparr>, None)
   \<and> WriteBatch exMuxer [7, 8] = Some (exMuxer\<lparr>bChan := bChan exMuxer @ [[7, 8]]\<rparr>, None)"
proof -
  have n1: "state (exMuxer\<lparr>state := closed\<rparr>) \<noteq> running" by simp
  have n2: "state (exMuxer\<lparr>state := empty\<rparr>) \<noteq> running \<and> [7, 8::nat] \<noteq> []" by simp
  have r1: "state exMuxer = running \<and> length (eChan exMuxer) < chanSize exMuxer"
    by (simp add: exMuxer_def)
  have r2: "state exMuxer = running \<and> [7, 8::nat] \<noteq> [] \<and> length (bChan exMuxer) < chanSize exMuxer"
    by (simp add: exMuxer_def)
  from n1 Write_spec [of "exMuxer\<lparr>state := closed\<rparr>" 7 "[7, 8]"]
  have c1: "WriteEntry (exMuxer\<lparr>state := closed\<rparr>) (Some 7)
      = Some (exMuxer\<lparr>state := closed\<rparr>, Some ErrNotRunning)" by blast
  from n2 Write_spec [of "exMuxer\<lparr>state := empty\<rparr>" 7 "[7, 8]"]
  have c2: "WriteBatch (exMuxer\<lparr>state := empty\<rparr>) [7, 8]
      = Some (exMuxer\<lparr>state := empty\<rparr>, Some ErrNotRunning)" by blast
  from r1 Write_spec [of exMuxer 7 "[7, 8]"]
  have c3: "WriteEntry exMuxer (Some 7) = Some (exMuxer\<lparr>eChan := eChan exMuxer @ [7]\<rparr>, None)"
    by blast
  from r2 Write_spec [of exMuxer 7 "[7, 8]"]
  have c4: "WriteBatch exMuxer [7, 8] = Some (exMuxer\<lparr>bChan := bChan exMuxer @ [[7, 8]]\<rparr>, None)"
    by blast
  from c1 c2 c3 c4 show ?thesis by (intro conjI)
qed

section \<open>Sync\<close>




lemma waitLoop_frame:
  "waitLoop im ticks = Some (im1, err) \<Longrightarrow>
     im1 = im\<lparr>connHot := connHot im1, connDead := connDead im1,
              eChan := eChan im1, bChan := bChan im1\<rparr>"
proof (induction ticks arbitrary: im)
  case Nil
  then show ?case by (simp split: if_splits)
next
  case (Cons t ts)
  let ?im' = "im\<lparr>connHot := hotAfter t, connDead := deadAfter t,
                  eChan := eChanAfter t, bChan := bChanAfter t\<rparr>"
  show ?case
  proof (cases "waitLoop im (t # ts) = waitLoop ?im' ts")
    case True
    with Cons.prems have "waitLoop ?im' ts = Some (im1, err)" by simp
    from Cons.IH [OF this] have f: "im1 = ?im'\<lparr>connHot := connHot im1, connDead := connDead im1,
              eChan := eChan im1, bChan := bChan im1\<rparr>" .
    show ?thesis by (subst f) simp
  next
    case False
    then have "im1 = im \<or> im1 = ?im'"
      using Cons.prems by (auto simp: Let_def split: if_splits option.splits)
    then show ?thesis by auto
  qed
qed







section \<open>The tag table\<close>

lemma fillTagMap_notin: "k \<notin> set vs \<Longrightarrow> fillTagMap i vs m k = m k"
  by (induction vs arbitrary: i m) auto

lemma fillTagMap_append:
  "fillTagMap i (xs @ ys) m = fillTagMap (i + length xs) ys (fillTagMap i xs m)"
  by (induction xs arbitrary: i m) auto

lemma dom_fillTagMap: "dom (fillTagMap i vs m) = dom m \<union> set vs"
  by (induction vs arbitrary: i m) auto

lemma fillTagMap_last_occurrence:
  assumes "j < length vs" and "vs ! j \<notin> set (drop (Suc j) vs)"
  shows "fillTagMap i vs m (vs ! j) = Some (of_nat (i + j))"
proof -
  have "vs = take j vs @ [vs ! j] @ drop (Suc j) vs"
    using assms(1) by (simp add: id_take_nth_drop)
  then have "fillTagMap i vs m (vs ! j)
      = fillTagMap i (take j vs @ [vs ! j] @ drop (Suc j) vs) m (vs ! j)" by simp
  also have "\<dots> = Some (of_nat (i + j))"
    using assms by (simp add: fillTagMap_append fillTagMap_notin)
  finally show ?thesis .
qed

lemma fillTagMap_snoc: "fillTagMap i (vs @ [v]) m v = Some (of_nat (i + length vs))"
  by (simp add: fillTagMap_append)

lemma fillTagMap_in_set:
  "k \<in> set vs \<Longrightarrow> fillTagMap i vs m k = fillTagMap i vs m' k"
proof (induction vs arbitrary: i m m')
  case Nil
  then show ?case by simp
next
  case (Cons v vs)
  show ?case
  proof (cases "k \<in> set vs")
    case True
    then have "fillTagMap (Suc i) vs (m(v \<mapsto> of_nat i)) k
        = fillTagMap (Suc i) vs (m'(v \<mapsto> of_nat i)) k"
      by (rule Cons.IH)
    then show ?thesis by simp
  next
    case False
    with Cons.prems have "k = v" by simp
    with False show ?thesis by (simp add: fillTagMap_notin)
  qed
qed

lemma fillTagMap_refill:
  "fillTagMap 0 (vs @ [v]) (fillTagMap 0 vs Map.empty) = fillTagMap 0 (vs @ [v]) Map.empty"
proof
  fix k
  show "fillTagMap 0 (vs @ [v]) (fillTagMap 0 vs Map.empty) k = fillTagMap 0 (vs @ [v]) Map.empty k"
  proof (cases "k \<in> set (vs @ [v])")
    case True
    then show ?thesis by (rule fillTagMap_in_set)
  next
    case False
    then have "k \<notin> set vs" by simp
    with False show ?thesis by (simp add: fillTagMap_notin)
  qed
qed

lemma last_occurrence:
  assumes "x \<in> set xs"
  shows "\<exists>j<length xs. xs ! j = x \<and> x \<notin> set (drop (Suc j) xs)"
proof -
  from split_list_last [OF assms] obtain ys zs where s: "xs = ys @ x # zs" "x \<notin> set zs" by blast
  have "length ys < length xs \<and> (xs ! length ys = x \<and> x \<notin> set (drop (Suc (length ys)) xs))"
    using s by simp
  then show ?thesis by (rule exI [of _ "length ys"])
qed

lemma distinct_not_later:
  assumes "distinct xs" and "i < length xs"
  shows "xs ! i \<notin> set (drop (Suc i) xs)"
proof -
  have "xs = take i xs @ xs ! i # drop (Suc i) xs" using assms(2) by (rule id_take_nth_drop)
  then have "distinct (take i xs @ xs ! i # drop (Suc i) xs)" using assms(1) by simp
  then show ?thesis by simp
qed

lemma negotiateConns_frame:
  "negotiateConns neg name tg k vs im = Inr im' \<Longrightarrow>
     im' = im\<lparr>igst := igst im', tagTranslators := tagTranslators im'\<rparr>
     \<and> length (igst im') = length (igst im)
     \<and> length (tagTranslators im') = length (tagTranslators im)"
proof (induction vs arbitrary: k im)
  case Nil
  then show ?case by simp
next
  case (Cons v vs)
  show ?case
  proof (cases v)
    case None
    with Cons.prems have "negotiateConns neg name tg (Suc k) vs im = Inr im'" by simp
    then show ?thesis by (rule Cons.IH)
  next
    case (Some c)
    from Cons.prems Some obtain im1 where
      r: "negotiateConns neg name tg (Suc k) vs im1 = Inr im'"
      and f: "im1 = im\<lparr>igst := igst im1, tagTranslators := tagTranslators im1\<rparr>"
      and l: "length (igst im1) = length (igst im)"
             "length (tagTranslators im1) = length (tagTranslators im)"
      by (auto simp: Let_def split: sum.splits if_splits option.splits prod.splits)
    from Cons.IH [OF r] have
      f': "im' = im1\<lparr>igst := igst im', tagTranslators := tagTranslators im'\<rparr>"
      and l': "length (igst im') = length (igst im1)"
              "length (tagTranslators im') = length (tagTranslators im1)"
      by simp_all
    have "im' = im\<lparr>igst := igst im', tagTranslators := tagTranslators im'\<rparr>"
      by (subst f', subst f) simp
    with l l' show ?thesis by simp
  qed
qed

lemma negotiateConns_returns:
  fixes im :: "('w::len word, 'e) IngestMuxer"
  shows "k + length vs \<le> length (tagTranslators im) \<Longrightarrow>
    \<exists>im'. negotiateConns neg name tg k vs im = Inr im'"
proof (induction vs arbitrary: k im)
  case Nil
  then show ?case by simp
next
  case (Cons v vs)
  have step: "\<exists>im'. negotiateConns neg name tg (Suc k) vs im1 = Inr im'"
    if "length (tagTranslators im1) = length (tagTranslators im)"
    for im1 :: "('w word, 'e) IngestMuxer"
  proof (rule Cons.IH)
    show "Suc k + length vs \<le> length (tagTranslators im1)" using Cons.prems that by simp
  qed
  have k: "k < length (tagTranslators im)" using Cons.prems by simp
  show ?case
  proof (cases v)
    case None
    then show ?thesis using step [of im] by simp
  next
    case (Some c)
    then show ?thesis using k
      by (auto simp: Let_def intro!: step split: sum.splits option.splits prod.splits)
  qed
qed

lemma NegotiateTag_present:
  "CheckTag name = None \<Longrightarrow> tagMap im name = Some tag \<Longrightarrow>
     NegotiateTag CheckTag ce neg im name = Inr (im, tag, None)"
  by (simp add: NegotiateTag_def)

lemma NegotiateTag_absent:
  fixes im :: "('w::len word, 'e) IngestMuxer"
  assumes c: "CheckTag name = None" and a: "tagMap im name = None"
    and l: "length (igst im) \<le> length (tagTranslators im)"
  shows "\<exists>im' tg err. NegotiateTag CheckTag ce neg im name = Inr (im', tg, err)
     \<and> tags im' = tags im @ [name]
     \<and> tagMap im' = fillTagMap 0 (tags im @ [name]) (tagMap im)
     \<and> im' = im\<lparr>igst := igst im', tagTranslators := tagTranslators im',
               tags := tags im', tagMap := tagMap im'\<rparr>
     \<and> err = (if cacheEnabled im \<and> cacheFileBacked im
              then UpdateStoredTagList ce (tags im @ [name]) else None)
     \<and> tg = (if err = None then of_nat (length (tags im)) else 0)"
proof -
  let ?tgs = "tags im @ [name]"
  let ?im2 = "im\<lparr>tags := ?tgs, tagMap := fillTagMap 0 ?tgs (tagMap im)\<rparr>"
  have tm: "tagMap ?im2 name = Some (of_nat (length (tags im)))"
    using fillTagMap_snoc [of 0 "tags im" name "tagMap im"] by simp
  show ?thesis
  proof (cases "cacheEnabled im \<and> cacheFileBacked im \<and> UpdateStoredTagList ce ?tgs \<noteq> None")
    case True
    then have "NegotiateTag CheckTag ce neg im name = Inr (?im2, 0, UpdateStoredTagList ce ?tgs)"
      using c a by (simp add: NegotiateTag_def)
    then show ?thesis using True by auto
  next
    case False
    have "0 + length (igst ?im2) \<le> length (tagTranslators ?im2)" using l by simp
    from negotiateConns_returns [OF this]
    obtain im3 where n: "negotiateConns neg name (of_nat (length (tags im))) 0 (igst ?im2) ?im2 = Inr im3"
      by blast
    from negotiateConns_frame [OF n]
    have f: "im3 = ?im2\<lparr>igst := igst im3, tagTranslators := tagTranslators im3\<rparr>" by simp
    have t3: "tags im3 = ?tgs" by (subst f) simp
    have m3: "tagMap im3 = fillTagMap 0 ?tgs (tagMap im)" by (subst f) simp
    have f3: "im3 = im\<lparr>igst := igst im3, tagTranslators := tagTranslators im3,
               tags := tags im3, tagMap := tagMap im3\<rparr>"
      unfolding t3 m3 by (subst f) simp
    have e: "(if cacheEnabled im \<and> cacheFileBacked im
              then UpdateStoredTagList ce (tags im @ [name]) else None) = None"
      using False by auto
    have "NegotiateTag CheckTag ce neg im name = Inr (im3, of_nat (length (tags im)), None)"
      using c a False tm n by (auto simp: NegotiateTag_def Let_def)
    with t3 m3 f3 e show ?thesis by simp
  qed
qed

text \<open>
  C4, as the code has it, for a name that passes \<open>CheckTag\<close>. If the name is in the
  tag map, \<open>NegotiateTag\<close> returns its id and nil and leaves the whole muxer as it is: the
  tag table is unchanged and no connection is asked to negotiate. If the name is absent
  (in a muxer with a translator slot for every connection slot, as \<open>Start\<close> makes them),
  the call returns; it fails exactly when the muxer has a file-backed cache whose
  \<open>UpdateStoredTagList\<close> returns an error, and then returns that error with the zero
  id. When it does not fail, the returned id is the length the tag table had before the
  call, as an \<open>EntryTag\<close>, the name is appended to \<open>tags\<close> at that index and mapped to
  it, and a second call with the name returns the same id and nil and leaves the muxer as
  it is.
\<close>

theorem NegotiateTag_spec:
  fixes im :: "('w::len word, 'e) IngestMuxer"
  assumes "CheckTag name = None"
  shows "(\<forall>tag. tagMap im name = Some tag \<longrightarrow>
            NegotiateTag CheckTag ce neg im name = Inr (im, tag, None))
    \<and> (tagMap im name = None \<and> length (igst im) \<le> length (tagTranslators im) \<longrightarrow>
         (\<exists>im' tg err. NegotiateTag CheckTag ce neg im name = Inr (im', tg, err)
            \<and> err = (if cacheEnabled im \<and> cacheFileBacked im
                     then UpdateStoredTagList ce (tags im @ [name]) else None)
            \<and> (err \<noteq> None \<longrightarrow> tg = 0)
            \<and> (err = None \<longrightarrow>
                  tg = of_nat (length (tags im))
                  \<and> (length (tags im) < 2 ^ LENGTH('w) \<longrightarrow> unat tg = length (tags im))
                  \<and> tags im' = tags im @ [name]
                  \<and> tagMap im' name = Some tg
                  \<and> NegotiateTag CheckTag ce neg im' name = Inr (im', tg, None))))"
proof (intro conjI allI impI)
  fix tag assume "tagMap im name = Some tag"
  with assms show "NegotiateTag CheckTag ce neg im name = Inr (im, tag, None)"
    by (simp add: NegotiateTag_present)
next
  assume h: "tagMap im name = None \<and> length (igst im) \<le> length (tagTranslators im)"
  then have a: "tagMap im name = None" and l: "length (igst im) \<le> length (tagTranslators im)"
    by simp_all
  from NegotiateTag_absent [where CheckTag = CheckTag and name = name and im = im
      and ce = ce and neg = neg, OF assms a l]
  obtain im' tg err where r: "NegotiateTag CheckTag ce neg im name = Inr (im', tg, err)"
    and t: "tags im' = tags im @ [name]"
    and m: "tagMap im' = fillTagMap 0 (tags im @ [name]) (tagMap im)"
    and e: "err = (if cacheEnabled im \<and> cacheFileBacked im
              then UpdateStoredTagList ce (tags im @ [name]) else None)"
    and g: "tg = (if err = None then of_nat (length (tags im)) else 0)"
    by blast
  have m': "tagMap im' name = Some (of_nat (length (tags im)))"
    unfolding m using fillTagMap_snoc [of 0 "tags im" name "tagMap im"] by simp
  have z: "err \<noteq> None \<longrightarrow> tg = 0" unfolding g by simp
  have again: "NegotiateTag CheckTag ce neg im' name = Inr (im', of_nat (length (tags im)), None)"
    using assms m' by (simp add: NegotiateTag_present)
  have s: "err = None \<longrightarrow>
                  tg = of_nat (length (tags im))
                  \<and> (length (tags im) < 2 ^ LENGTH('w) \<longrightarrow> unat tg = length (tags im))
                  \<and> tags im' = tags im @ [name]
                  \<and> tagMap im' name = Some tg
                  \<and> NegotiateTag CheckTag ce neg im' name = Inr (im', tg, None)"
  proof
    assume "err = None"
    with g have tg: "tg = of_nat (length (tags im))" by simp
    show "tg = of_nat (length (tags im))
                  \<and> (length (tags im) < 2 ^ LENGTH('w) \<longrightarrow> unat tg = length (tags im))
                  \<and> tags im' = tags im @ [name]
                  \<and> tagMap im' name = Some tg
                  \<and> NegotiateTag CheckTag ce neg im' name = Inr (im', tg, None)"
      unfolding tg using t m' again by (simp add: unat_of_nat_small)
  qed
  show "\<exists>im' tg err. NegotiateTag CheckTag ce neg im name = Inr (im', tg, err)
            \<and> err = (if cacheEnabled im \<and> cacheFileBacked im
                     then UpdateStoredTagList ce (tags im @ [name]) else None)
            \<and> (err \<noteq> None \<longrightarrow> tg = 0)
            \<and> (err = None \<longrightarrow>
                  tg = of_nat (length (tags im))
                  \<and> (length (tags im) < 2 ^ LENGTH('w) \<longrightarrow> unat tg = length (tags im))
                  \<and> tags im' = tags im @ [name]
                  \<and> tagMap im' name = Some tg
                  \<and> NegotiateTag CheckTag ce neg im' name = Inr (im', tg, None))"
    by (intro exI conjI) (rule r e z s)+
qed

lemma exMuxer_NegotiateTag_new:
  "NegotiateTag exCheckTag exCache exNegotiate exMuxer ''new''
    = Inr (exMuxer\<lparr>igst := [Some \<lparr>negotiated = [''new''], syncs = 0, closes = 0\<rparr>, None],
                   tagTranslators := [Some [3, 4, 5], None],
                   tags := [''default'', ''syslog'', ''new''],
                   tagMap := [''default'' \<mapsto> 0, ''syslog'' \<mapsto> 1, ''new'' \<mapsto> 2]\<rparr>, 2, None)"
  by (simp add: NegotiateTag_def exCheckTag_def exMuxer_def exCache_def exNegotiate_def
      RegisterTag_def Let_def)

text \<open>
  C4 as amended at the example muxer: \<open>syslog\<close> is known and keeps its id 1; \<open>new\<close> is
  absent, becomes tag 2 and is negotiated on the live connection; negotiating \<open>new\<close>
  again returns 2 and leaves the muxer as it is.
\<close>

theorem NegotiateTag_spec_witness:
  "exCheckTag ''syslog'' = None \<and> exCheckTag ''new'' = None
   \<and> NegotiateTag exCheckTag exCache exNegotiate exMuxer ''syslog'' = Inr (exMuxer, 1, None)
   \<and> tagMap exMuxer ''new'' = None \<and> length (igst exMuxer) \<le> length (tagTranslators exMuxer)
   \<and> NegotiateTag exCheckTag exCache exNegotiate exMuxer ''new''
        = Inr (exMuxer\<lparr>igst := [Some \<lparr>negotiated = [''new''], syncs = 0, closes = 0\<rparr>, None],
                   tagTranslators := [Some [3, 4, 5], None],
                   tags := [''default'', ''syslog'', ''new''],
                   tagMap := [''default'' \<mapsto> 0, ''syslog'' \<mapsto> 1, ''new'' \<mapsto> 2]\<rparr>, 2, None)
   \<and> NegotiateTag exCheckTag exCache exNegotiate
        (exMuxer\<lparr>igst := [Some \<lparr>negotiated = [''new''], syncs = 0, closes = 0\<rparr>, None],
                   tagTranslators := [Some [3, 4, 5], None],
                   tags := [''default'', ''syslog'', ''new''],
                   tagMap := [''default'' \<mapsto> 0, ''syslog'' \<mapsto> 1, ''new'' \<mapsto> 2]\<rparr>) ''new''
        = Inr (exMuxer\<lparr>igst := [Some \<lparr>negotiated = [''new''], syncs = 0, closes = 0\<rparr>, None],
                   tagTranslators := [Some [3, 4, 5], None],
                   tags := [''default'', ''syslog'', ''new''],
                   tagMap := [''default'' \<mapsto> 0, ''syslog'' \<mapsto> 1, ''new'' \<mapsto> 2]\<rparr>, 2, None)"
proof -
  let ?im' = "exMuxer\<lparr>igst := [Some \<lparr>negotiated = [''new''], syncs = 0, closes = 0\<rparr>, None],
                   tagTranslators := [Some [3, 4, 5], None],
                   tags := [''default'', ''syslog'', ''new''],
                   tagMap := [''default'' \<mapsto> 0, ''syslog'' \<mapsto> 1, ''new'' \<mapsto> 2]\<rparr>"
  have c1: "exCheckTag ''syslog'' = None" and c2: "exCheckTag ''new'' = None"
    by (simp_all add: exCheckTag_def)
  have p: "tagMap exMuxer ''syslog'' = Some 1" by (simp add: exMuxer_def)
  have a: "tagMap exMuxer ''new'' = None \<and> length (igst exMuxer) \<le> length (tagTranslators exMuxer)"
    by (simp add: exMuxer_def)
  have n: "length (tags exMuxer) = 2" by (simp add: exMuxer_def)
  from NegotiateTag_spec [where CheckTag = exCheckTag and name = "''syslog''" and im = exMuxer
      and ce = exCache and neg = exNegotiate, OF c1] p
  have r1: "NegotiateTag exCheckTag exCache exNegotiate exMuxer ''syslog'' = Inr (exMuxer, 1, None)"
    by blast
  note spec = NegotiateTag_spec [where CheckTag = exCheckTag and name = "''new''" and im = exMuxer
      and ce = exCache and neg = exNegotiate, OF c2]
  from spec [THEN conjunct2, THEN mp, OF a]
  obtain im' tg err where
    r: "NegotiateTag exCheckTag exCache exNegotiate exMuxer ''new'' = Inr (im', tg, err)"
    and again: "err = None \<longrightarrow>
        NegotiateTag exCheckTag exCache exNegotiate im' ''new'' = Inr (im', tg, None)"
    by (elim exE conjE) simp
  have r2: "NegotiateTag exCheckTag exCache exNegotiate exMuxer ''new'' = Inr (?im', 2, None)"
    by (rule exMuxer_NegotiateTag_new)
  from r r2 have "im' = ?im'" "tg = 2" "err = None" by simp_all
  with again have r3: "NegotiateTag exCheckTag exCache exNegotiate ?im' ''new'' = Inr (?im', 2, None)"
    by simp
  from c1 c2 r1 a r2 r3 show ?thesis by (intro conjI) simp_all
qed

text \<open>
  C4 as stated fails when the file-backed cache cannot store the tag list: the name
  \<open>new\<close> is absent and passes \<open>CheckTag\<close>, the table holds two names, and the call
  returns the cache's error with the id 0, not the id 2.
\<close>

theorem NegotiateTag_cache_failure_counterexample:
  "exCheckTag ''new'' = None \<and> tagMap exMuxer ''new'' = None \<and> length (tags exMuxer) = 2
   \<and> NegotiateTag exCheckTag exFailingCache exNegotiate exMuxer ''new''
    = Inr (exMuxer\<lparr>tags := [''default'', ''syslog'', ''new''],
                   tagMap := [''default'' \<mapsto> 0, ''syslog'' \<mapsto> 1, ''new'' \<mapsto> 2]\<rparr>,
           0, Some (ErrExternal ''write failed''))
   \<and> (0::16 word) \<noteq> of_nat (length (tags exMuxer))"
  by (simp add: NegotiateTag_def exCheckTag_def exMuxer_def exFailingCache_def Let_def)

text \<open>
  After that failed call the name is in the tag map although no connection has been asked
  for it, so the next call returns the id 2 and nil at once, again asking no connection
  (the connection's \<open>negotiated\<close> list stays empty). The doc comment of
  \<open>NegotiateTag\<close> says that for a name not yet negotiated the muxer contacts each
  indexer; the statement of C4 above says nothing about calls that follow a failed one.
\<close>

lemma NegotiateTag_after_cache_failure:
  "NegotiateTag exCheckTag exFailingCache exNegotiate
     (exMuxer\<lparr>tags := [''default'', ''syslog'', ''new''],
              tagMap := [''default'' \<mapsto> 0, ''syslog'' \<mapsto> 1, ''new'' \<mapsto> 2]\<rparr>) ''new''
    = Inr (exMuxer\<lparr>tags := [''default'', ''syslog'', ''new''],
                   tagMap := [''default'' \<mapsto> 0, ''syslog'' \<mapsto> 1, ''new'' \<mapsto> 2]\<rparr>,
           2, None)"
  by (simp add: NegotiateTag_def exCheckTag_def)

lemma tagLoop_prefix: "\<exists>zs. tagLoop ctags lts = ctags @ zs"
proof (induction lts arbitrary: ctags)
  case Nil
  then show ?case by simp
next
  case (Cons lt lts)
  show ?case
  proof (cases "lt \<in> set ctags")
    case True
    then show ?thesis using Cons.IH [of ctags] by simp
  next
    case False
    from Cons.IH [of "ctags @ [lt]"] obtain zs where "tagLoop (ctags @ [lt]) lts = (ctags @ [lt]) @ zs" ..
    then have "tagLoop ctags (lt # lts) = ctags @ (lt # zs)" using False by simp
    then show ?thesis ..
  qed
qed

lemma tagLoop_distinct: "distinct ctags \<Longrightarrow> distinct (tagLoop ctags lts)"
  by (induction lts arbitrary: ctags) auto

lemma newIngestMuxer_tagMap:
  "newIngestMuxer ce c = Inr im \<Longrightarrow> tagMap im = fillTagMap 0 (tags im) Map.empty"
  by (auto simp: newIngestMuxer_def split: sum.splits)

lemma newIngestMuxer_plain_tags:
  "\<not> EnableCache c \<Longrightarrow> \<exists>im. newIngestMuxer ce c = Inr im \<and> tags im = Tags c"
  by (simp add: newIngestMuxer_def)

lemma NegotiateTag_cases:
  fixes im :: "('w::len word, 'e) IngestMuxer"
  assumes r: "NegotiateTag CheckTag ce neg im name = Inr (im', tg, err)"
  shows "(tags im' = tags im \<and> tagMap im' = tagMap im)
       \<or> (tagMap im name = None \<and> tags im' = tags im @ [name]
           \<and> tagMap im' = fillTagMap 0 (tags im @ [name]) (tagMap im))"
proof (cases "CheckTag name")
  case (Some e)
  with r show ?thesis by (simp add: NegotiateTag_def)
next
  case None
  show ?thesis
  proof (cases "tagMap im name")
    case (Some tag)
    with r None show ?thesis by (simp add: NegotiateTag_def)
  next
    case a: None
    let ?im2 = "im\<lparr>tags := tags im @ [name], tagMap := fillTagMap 0 (tags im @ [name]) (tagMap im)\<rparr>"
    show ?thesis
    proof (cases "cacheEnabled im \<and> cacheFileBacked im \<and> UpdateStoredTagList ce (tags im @ [name]) \<noteq> None")
      case True
      with r None a have "im' = ?im2" by (simp add: NegotiateTag_def)
      with a show ?thesis by simp
    next
      case False
      with r None a obtain tg' where
        "negotiateConns neg name tg' 0 (igst ?im2) ?im2 = Inr im'"
        by (auto simp: NegotiateTag_def Let_def split: sum.splits)
      from negotiateConns_frame [OF this]
      have f: "im' = ?im2\<lparr>igst := igst im', tagTranslators := tagTranslators im'\<rparr>" by simp
      have "tags im' = tags im @ [name]" by (subst f) simp
      moreover have "tagMap im' = fillTagMap 0 (tags im @ [name]) (tagMap im)" by (subst f) simp
      ultimately show ?thesis using a by simp
    qed
  qed
qed

lemma step_tags:
  fixes im :: "('w::len word, 'e) IngestMuxer"
  assumes "step im im'"
  shows "(tags im' = tags im \<and> tagMap im' = tagMap im)
       \<or> (\<exists>name. tagMap im name = None \<and> tags im' = tags im @ [name]
           \<and> tagMap im' = fillTagMap 0 (tags im @ [name]) (tagMap im))"
  using assms
proof cases
  case (s_Start err)
  then show ?thesis by (auto simp: Start_def split: if_splits)
next
  case (s_NegotiateTag CheckTag ce neg name tg err)
  from NegotiateTag_cases [OF this] show ?thesis by blast
next
  case (s_WriteEntry e err)
  then show ?thesis by (auto simp: WriteEntry_def split: option.splits if_splits)
next
  case (s_WriteBatch b err)
  then show ?thesis by (auto simp: WriteBatch_def split: if_splits)
next
  case (s_SyncContext sy ticks err)
  then consider "im' = im"
    | im1 where "waitLoop im ticks = Some (im1, err)" "im' = im1"
    | im1 vs where "waitLoop im ticks = Some (im1, None)" "im' = im1\<lparr>igst := vs\<rparr>"
    by (auto simp: SyncContext_def split: if_splits option.splits prod.splits)
  then show ?thesis
  proof cases
    case 1
    then show ?thesis by simp
  next
    case 2
    from waitLoop_frame [OF 2(1)] have f: "im1 = im\<lparr>connHot := connHot im1,
        connDead := connDead im1, eChan := eChan im1, bChan := bChan im1\<rparr>" .
    have "tags im1 = tags im" "tagMap im1 = tagMap im" by (subst f, simp)+
    with 2(2) show ?thesis by simp
  next
    case 3
    from waitLoop_frame [OF 3(1)] have f: "im1 = im\<lparr>connHot := connHot im1,
        connDead := connDead im1, eChan := eChan im1, bChan := bChan im1\<rparr>" .
    have "tags im1 = tags im" "tagMap im1 = tagMap im" by (subst f, simp)+
    with 3(2) show ?thesis by simp
  qed
qed

lemma reachable_step: "reachable im \<Longrightarrow> step im im' \<Longrightarrow> reachable im'"
  by (erule step.cases) (auto intro: reachable.intros)

lemma reachable_tagMap:
  fixes im :: "('w::len word, 'e) IngestMuxer"
  assumes "reachable im"
  shows "tagMap im = fillTagMap 0 (tags im) Map.empty"
  using assms
proof (induction rule: reachable.induct)
  case (r_new ce c im)
  then show ?case by (rule newIngestMuxer_tagMap)
next
  case (r_Start im im' err)
  from step_tags [OF s_Start [OF r_Start.hyps(2)]] r_Start.IH show ?case
    by (auto simp: fillTagMap_refill)
next
  case (r_NegotiateTag im CheckTag ce neg name im' tg err)
  from step_tags [OF s_NegotiateTag [OF r_NegotiateTag.hyps(2)]] r_NegotiateTag.IH show ?case
    by (auto simp: fillTagMap_refill)
next
  case (r_WriteEntry im e im' err)
  from step_tags [OF s_WriteEntry [OF r_WriteEntry.hyps(2)]] r_WriteEntry.IH show ?case
    by (auto simp: fillTagMap_refill)
next
  case (r_WriteBatch im b im' err)
  from step_tags [OF s_WriteBatch [OF r_WriteBatch.hyps(2)]] r_WriteBatch.IH show ?case
    by (auto simp: fillTagMap_refill)
next
  case (r_SyncContext im sy ticks im' err)
  from step_tags [OF s_SyncContext [OF r_SyncContext.hyps(2)]] r_SyncContext.IH show ?case
    by (auto simp: fillTagMap_refill)
qed

text \<open>
  C8, as the code has it. In every reachable muxer the names of the tag map are the names
  of \<open>tags\<close>. When the table fits the tag type (at most \<open>2 ^ w\<close> names for tags of
  \<open>w\<close> bits), every name of the tag map satisfies \<open>tags[tagMap[name]] = name\<close>. When
  no name occurs twice in \<open>tags\<close>, every index satisfies
  \<open>tagMap[tags[i]] = EntryTag(i)\<close>. Every step (\<open>Start\<close>, \<open>NegotiateTag\<close>,
  \<open>WriteEntry\<close>, \<open>WriteBatch\<close>, \<open>SyncContext\<close>) leads to a reachable muxer whose
  \<open>tags\<close> are the old ones with nothing or one name appended, and keeps \<open>tags\<close> free
  of repetitions.
\<close>

theorem tag_table_invariant:
  fixes im :: "('w::len word, 'e) IngestMuxer"
  assumes "reachable im"
  shows "dom (tagMap im) = set (tags im)
    \<and> (length (tags im) \<le> 2 ^ LENGTH('w) \<longrightarrow>
         (\<forall>name\<in>dom (tagMap im). \<exists>v. tagMap im name = Some v
              \<and> unat v < length (tags im) \<and> tags im ! unat v = name))
    \<and> (distinct (tags im) \<longrightarrow>
         (\<forall>i<length (tags im). tagMap im (tags im ! i) = Some (of_nat i)
              \<and> (length (tags im) \<le> 2 ^ LENGTH('w) \<longrightarrow> unat (of_nat i :: 'w word) = i)))
    \<and> (\<forall>im'. step im im' \<longrightarrow>
          reachable im' \<and> (\<exists>zs. tags im' = tags im @ zs)
          \<and> (distinct (tags im) \<longrightarrow> distinct (tags im')))"
proof -
  have m: "tagMap im = fillTagMap 0 (tags im) Map.empty" using assms by (rule reachable_tagMap)
  have d: "dom (tagMap im) = set (tags im)" by (subst m) (simp add: dom_fillTagMap)
  have last: "tagMap im (tags im ! j) = Some (of_nat j)"
    if "j < length (tags im)" "tags im ! j \<notin> set (drop (Suc j) (tags im))" for j
    using fillTagMap_last_occurrence [OF that, of 0 Map.empty] by (subst m) simp
  have names: "\<forall>name\<in>dom (tagMap im). \<exists>v. tagMap im name = Some v
              \<and> unat v < length (tags im) \<and> tags im ! unat v = name"
    if b: "length (tags im) \<le> 2 ^ LENGTH('w)"
  proof
    fix name assume "name \<in> dom (tagMap im)"
    then have "name \<in> set (tags im)" using d by simp
    from last_occurrence [OF this]
    obtain j where "j < length (tags im) \<and> (tags im ! j = name \<and> name \<notin> set (drop (Suc j) (tags im)))" ..
    then have j: "j < length (tags im)" "tags im ! j = name"
      "tags im ! j \<notin> set (drop (Suc j) (tags im))" by simp_all
    have v: "tagMap im name = Some (of_nat j)" using last [OF j(1) j(3)] j(2) by simp
    have "j < 2 ^ LENGTH('w)" using j(1) b by simp
    then have u: "unat (of_nat j :: 'w word) = j" by (rule unat_of_nat_small)
    show "\<exists>v. tagMap im name = Some v \<and> unat v < length (tags im) \<and> tags im ! unat v = name"
      by (rule exI [of _ "of_nat j"]) (simp add: v u j)
  qed
  have idx: "\<forall>i<length (tags im). tagMap im (tags im ! i) = Some (of_nat i)
              \<and> (length (tags im) \<le> 2 ^ LENGTH('w) \<longrightarrow> unat (of_nat i :: 'w word) = i)"
    if ds: "distinct (tags im)"
  proof (intro allI impI conjI)
    fix i assume i: "i < length (tags im)"
    from distinct_not_later [OF ds i] show "tagMap im (tags im ! i) = Some (of_nat i)"
      by (rule last [OF i])
    assume "length (tags im) \<le> 2 ^ LENGTH('w)"
    with i have "i < 2 ^ LENGTH('w)" by simp
    then show "unat (of_nat i :: 'w word) = i" by (rule unat_of_nat_small)
  qed
  have steps: "reachable im' \<and> (\<exists>zs. tags im' = tags im @ zs)
          \<and> (distinct (tags im) \<longrightarrow> distinct (tags im'))"
    if s: "step im im'" for im'
  proof -
    have r: "reachable im'" using assms s by (rule reachable_step)
    from step_tags [OF s] have g: "tags im' = tags im
        \<or> (\<exists>name. name \<notin> set (tags im) \<and> tags im' = tags im @ [name])"
      using d by (auto simp: domIff)
    then have "\<exists>zs. tags im' = tags im @ zs" by auto
    moreover from g have "distinct (tags im) \<longrightarrow> distinct (tags im')" by auto
    ultimately show ?thesis using r by simp
  qed
  from d names idx steps show ?thesis by blast
qed

lemma exNew_eq: "newIngestMuxer exCache exConfig = Inr exNew"
  by (simp add: exNew_def newIngestMuxer_def exConfig_def)

text \<open>C8 as amended at the muxer built from the example configuration, and at its start.\<close>

theorem tag_table_invariant_witness:
  "reachable exNew
   \<and> dom (tagMap exNew) = set (tags exNew)
   \<and> length (tags exNew) \<le> 2 ^ LENGTH(16)
   \<and> distinct (tags exNew)
   \<and> tagMap exNew (tags exNew ! 1) = Some 1
   \<and> step exNew (fst (Start exNew))
   \<and> reachable (fst (Start exNew))"
proof -
  have r: "reachable exNew" using exNew_eq by (rule r_new)
  have t: "tags exNew = [''default'', ''syslog'']"
    by (simp add: exNew_def newIngestMuxer_def exConfig_def)
  have l: "length (tags exNew) \<le> 2 ^ LENGTH(16)" by (simp add: t)
  have ds: "distinct (tags exNew)" by (simp add: t)
  have s: "step exNew (fst (Start exNew))" by (rule s_Start [of exNew _ "snd (Start exNew)"]) simp
  note inv = tag_table_invariant [OF r]
  from inv have c1: "dom (tagMap exNew) = set (tags exNew)" by blast
  from inv ds have a: "\<forall>i<length (tags exNew). tagMap exNew (tags exNew ! i) = Some (of_nat i)
      \<and> (length (tags exNew) \<le> 2 ^ LENGTH(16) \<longrightarrow> unat (of_nat i :: 16 word) = i)"
    by blast
  have "1 < length (tags exNew)" by (simp add: t)
  from a [rule_format, OF this] have c2: "tagMap exNew (tags exNew ! 1) = Some 1" by simp
  from inv s have c3: "reachable (fst (Start exNew))" by blast
  from r c1 l ds c2 s c3 show ?thesis by (intro conjI)
qed

text \<open>
  C8 as stated fails for a configuration that names a tag twice: \<open>newIngestMuxer\<close> keeps
  both entries of \<open>tags\<close> and maps the name to the last index, so
  \<open>tagMap[tags[0]]\<close> is 1, not 0.
\<close>

theorem tag_table_duplicate_counterexample:
  "newIngestMuxer exCache exDupConfig
     = Inr (exNew\<lparr>tags := [''a'', ''a''], tagMap := [''a'' \<mapsto> 1::16 word]\<rparr>)
   \<and> reachable (exNew\<lparr>tags := [''a'', ''a''], tagMap := [''a'' \<mapsto> 1::16 word]\<rparr>)
   \<and> tagMap (exNew\<lparr>tags := [''a'', ''a''], tagMap := [''a'' \<mapsto> 1::16 word]\<rparr>)
        (tags (exNew\<lparr>tags := [''a'', ''a''], tagMap := [''a'' \<mapsto> 1::16 word]\<rparr>) ! 0) = Some 1
   \<and> (1::16 word) \<noteq> 0"
proof -
  let ?im = "exNew\<lparr>tags := [''a'', ''a''], tagMap := [''a'' \<mapsto> 1::16 word]\<rparr> :: (16 word, nat) IngestMuxer"
  have e: "newIngestMuxer exCache exDupConfig = Inr ?im"
    by (simp add: exNew_def newIngestMuxer_def exConfig_def exDupConfig_def)
  then have "reachable ?im" by (rule r_new)
  with e show ?thesis by simp
qed

end
